theory Spec2Isabelle
  imports Complex_Main "HOL-Library.Multiset"
begin

section \<open>Errors and numpy arrays\<close>

text \<open>
  The engine of \<^verbatim>\<open>src/3/decision_tree.py\<close> works on one numpy array \<^verbatim>\<open>data\<close>:
  column 0 holds the class label of each row, the other columns hold attribute values.
  A numpy array has a single element type, so an array is either integer valued or
  float valued; a two-dimensional array of shape \<open>(n, k)\<close> is given by \<open>k\<close> and its
  \<open>n\<close> rows (each of length \<open>k\<close>).  Exceptions are values of type \<open>error\<close>; a
  computation that can raise returns \<open>error + 'a\<close> with \<open>Inl\<close> for the exception.
  Python's float64 quantities (probabilities, entropies, error rates) are modelled by
  exact reals.
\<close>

datatype error = ValueError | TypeError | IndexError | AssertionError | ZeroDivisionError

datatype vec = IntVec "int list" | FloatVec "real list"

datatype ndarray = IntArray nat "int list list" | FloatArray nat "real list list"

fun vlen :: "vec \<Rightarrow> nat" where
  "vlen (IntVec ys) = length ys"
| "vlen (FloatVec ys) = length ys"

fun ncols :: "ndarray \<Rightarrow> nat" where
  "ncols (IntArray k rs) = k"
| "ncols (FloatArray k rs) = k"

fun nrows :: "ndarray \<Rightarrow> nat" where
  "nrows (IntArray k rs) = length rs"
| "nrows (FloatArray k rs) = length rs"

text \<open>\<^verbatim>\<open>data[:, j]\<close> for a column \<open>j\<close> that exists (callers check \<open>j < k\<close>).\<close>

fun column :: "ndarray \<Rightarrow> nat \<Rightarrow> vec" where
  "column (IntArray k rs) j = IntVec (map (\<lambda>r. r ! j) rs)"
| "column (FloatArray k rs) j = FloatVec (map (\<lambda>r. r ! j) rs)"

text \<open>\<^verbatim>\<open>Y[p]\<close> and \<^verbatim>\<open>data[p]\<close> for a list \<open>p\<close> of row indices in range.\<close>

fun vtake :: "vec \<Rightarrow> nat list \<Rightarrow> vec" where
  "vtake (IntVec ys) p = IntVec (map (\<lambda>i. ys ! i) p)"
| "vtake (FloatVec ys) p = FloatVec (map (\<lambda>i. ys ! i) p)"

fun take_rows :: "ndarray \<Rightarrow> nat list \<Rightarrow> ndarray" where
  "take_rows (IntArray k rs) p = IntArray k (map (\<lambda>i. rs ! i) p)"
| "take_rows (FloatArray k rs) p = FloatArray k (map (\<lambda>i. rs ! i) p)"

text \<open>
  \<^verbatim>\<open>np.bincount(Y)\<close>: a float array cannot be cast to integers (TypeError), a negative
  entry is refused (ValueError); otherwise the result has one slot for every integer
  from 0 to the largest entry, holding the number of occurrences, and is empty for
  an empty array.
\<close>

fun bincount :: "vec \<Rightarrow> error + nat list" where
  "bincount (FloatVec ys) = Inl TypeError"
| "bincount (IntVec ys) =
     (if list_ex (\<lambda>y. y < 0) ys then Inl ValueError
      else if ys = [] then Inr []
      else Inr (map (\<lambda>c. count_list ys (int c)) [0..<nat (Max (set ys)) + 1]))"

section \<open>Entropy and partitions\<close>

text \<open>
  \<^verbatim>\<open>
  def entropy(Y):
      probabilities = np.bincount(Y) / len(Y)
      return -1 * sum(p * np.log2(p) for p in probabilities if p)
  \<close>
\<close>

definition entropy :: "vec \<Rightarrow> error + real" where
  "entropy Y =
     (case bincount Y of
        Inl e \<Rightarrow> Inl e
      | Inr counts \<Rightarrow>
          let probabilities = map (\<lambda>c. real c / real (vlen Y)) counts
          in Inr (- 1 * sum_list (map (\<lambda>p. p * log 2 p) (filter (\<lambda>p. p \<noteq> 0) probabilities))))"

text \<open>
  \<^verbatim>\<open>
  def partition(Xa):
      return {v: np.where(Xa == v)[0] for v in np.unique(Xa)}
  \<close>
  \<^verbatim>\<open>np.unique\<close> returns the distinct values in ascending order; the dictionary keeps
  that insertion order, so it is an association list.
\<close>

definition partition_col :: "'a::linorder list \<Rightarrow> ('a \<times> nat list) list" where
  "partition_col Xa =
     map (\<lambda>v. (v, filter (\<lambda>i. Xa ! i = v) [0..<length Xa])) (remdups (sort Xa))"

text \<open>\<^verbatim>\<open>partition(Xa).values()\<close> for a column of either element type.\<close>

fun partition_values :: "vec \<Rightarrow> nat list list" where
  "partition_values (IntVec xs) = map snd (partition_col xs)"
| "partition_values (FloatVec xs) = map snd (partition_col xs)"

section \<open>Choosing the attribute\<close>

text \<open>
  Python's \<^verbatim>\<open>sum\<close> over a generator evaluates the terms in order; the first exception
  ends it.
\<close>

fun sum_err :: "(error + real) list \<Rightarrow> error + real" where
  "sum_err [] = Inr 0"
| "sum_err (x # xs) =
     (case x of
        Inl e \<Rightarrow> Inl e
      | Inr v \<Rightarrow> (case sum_err xs of Inl e \<Rightarrow> Inl e | Inr s \<Rightarrow> Inr (v + s)))"

text \<open>
  \<^verbatim>\<open>
  entropy_Y_Xa = sum((len(p) / len(Xa)) * entropy(Y[p])
                     for p in partition(Xa).values())
  gain = entropy(Y) - entropy_Y_Xa
  \<close>
\<close>

definition entropy_Y_Xa :: "vec \<Rightarrow> vec \<Rightarrow> error + real" where
  "entropy_Y_Xa Y Xa =
     sum_err (map (\<lambda>p. case entropy (vtake Y p) of
                          Inl e \<Rightarrow> Inl e
                        | Inr h \<Rightarrow> Inr ((real (length p) / real (vlen Xa)) * h))
                  (partition_values Xa))"

definition gain_of :: "ndarray \<Rightarrow> nat \<Rightarrow> error + real" where
  "gain_of data i =
     (case entropy_Y_Xa (column data 0) (column data (i + 1)) of
        Inl e \<Rightarrow> Inl e
      | Inr s \<Rightarrow> (case entropy (column data 0) of Inl e \<Rightarrow> Inl e | Inr h \<Rightarrow> Inr (h - s)))"

text \<open>
  \<^verbatim>\<open>
  best_gain = -1
  best_attr = -1
  for i, Xa in enumerate(X.T):
      ...
      if gain > best_gain:
          best_gain = gain
          best_attr = i + 1
  return best_gain, best_attr
  \<close>
  The loop over the attribute columns \<open>i = 0, ..., k - 2\<close> of \<^verbatim>\<open>X = data[:, 1:]\<close>,
  with the pair \<open>(best_gain, best_attr)\<close> as its state.
\<close>

fun best_loop :: "ndarray \<Rightarrow> nat list \<Rightarrow> real \<times> int \<Rightarrow> error + (real \<times> int)" where
  "best_loop data [] best = Inr best"
| "best_loop data (i # rest) (best_gain, best_attr) =
     (case gain_of data i of
        Inl e \<Rightarrow> Inl e
      | Inr gain \<Rightarrow>
          best_loop data rest
            (if gain > best_gain then (gain, int i + 1) else (best_gain, best_attr)))"

definition best_attribute :: "ndarray \<Rightarrow> error + (real \<times> int)" where
  "best_attribute data =
     (if ncols data = 0 then Inl IndexError
      else best_loop data [0..<ncols data - 1] (- 1, - 1))"

section \<open>Nodes and the builder\<close>

text \<open>
  A node owns its children: \<^verbatim>\<open>children\<close> is a dictionary from attribute value to child
  node, in insertion order.  \<^verbatim>\<open>_build_tree\<close> creates every node afresh, so a built tree
  shares no node and is a value of the datatype below.  The back reference
  \<^verbatim>\<open>parent\<close> is not stored: a node is addressed by its position (the list of child
  indices leading to it from the root), and its parent is the node one step up.
  \<^verbatim>\<open>
  def __init__(self, parent, nsamples, attr_idx=None, children={}):
      self.parent = parent
      self.nsamples = nsamples
      self.cls = nsamples.argmax()
      self.attr_idx = attr_idx
      self.children = children
  \<close>
  \<^verbatim>\<open>argmax\<close> raises ValueError on an empty array and returns the first index of the
  largest entry otherwise.  The default dictionary is shared by all nodes created
  without children, and no code path ever mutates it (the builder and the pruner
  assign a new dictionary to \<^verbatim>\<open>children\<close>), so sharing it is not observable.
\<close>

datatype node =
  Node (nsamples: "nat list") (cls: nat) (attr_idx: "int option") (children: "(int \<times> node) list")

definition argmax :: "nat list \<Rightarrow> error + nat" where
  "argmax ns =
     (if ns = [] then Inl ValueError
      else Inr (length (takeWhile (\<lambda>c. c \<noteq> Max (set ns)) ns)))"

definition new_node :: "nat list \<Rightarrow> int option \<Rightarrow> error + node" where
  "new_node ns a = (case argmax ns of Inl e \<Rightarrow> Inl e | Inr c \<Rightarrow> Inr (Node ns c a []))"

text \<open>
  A dictionary comprehension evaluates its entries in order; the first exception
  ends it.
\<close>

fun collect :: "(error + 'a) list \<Rightarrow> error + 'a list" where
  "collect [] = Inr []"
| "collect (x # xs) =
     (case x of
        Inl e \<Rightarrow> Inl e
      | Inr v \<Rightarrow> (case collect xs of Inl e \<Rightarrow> Inl e | Inr vs \<Rightarrow> Inr (v # vs)))"

text \<open>
  The builder recurses into the groups of a partition only when the best gain is
  positive.  A column with a single value gives the gain \<open>H - (n / n) * H = 0\<close>, so
  under a positive gain every group is a proper part of the rows: the recursion
  terminates.
\<close>

lemma best_loop_result:
  "best_loop data is (g0, a0) = Inr (g, a) \<Longrightarrow>
     (g = g0 \<and> a = a0) \<or> (g0 < g \<and> (\<exists>i\<in>set is. a = int i + 1 \<and> gain_of data i = Inr g))"
proof (induction "is" arbitrary: g0 a0)
  case Nil
  then show ?case by simp
next
  case (Cons i rest)
  then show ?case
    by (fastforce split: sum.splits if_splits)
qed

lemma distinct_set_singleton:
  assumes "distinct ys" and "set ys = {v}"
  shows "ys = [v]"
proof -
  have "length ys = card (set ys)"
    using assms(1) by (simp add: distinct_card)
  then have "length ys = 1"
    using assms(2) by simp
  then obtain y where "ys = [y]"
    by (cases ys) auto
  with assms(2) show ?thesis by simp
qed

lemma partition_col_whole:
  assumes "(v, p) \<in> set (partition_col xs)" and "length xs \<le> length p"
  shows "partition_col xs = [(v, [0..<length xs])]"
proof -
  from assms(1) have p: "p = filter (\<lambda>i. xs ! i = v) [0..<length xs]" and v: "v \<in> set xs"
    by (auto simp: partition_col_def)
  from assms(2) p have full: "length (filter (\<lambda>i. xs ! i = v) [0..<length xs]) = length [0..<length xs]"
    using length_filter_le [of "\<lambda>i. xs ! i = v" "[0..<length xs]"] by simp
  have all: "\<forall>i\<in>set [0..<length xs]. xs ! i = v"
  proof (rule ccontr)
    assume "\<not> (\<forall>i\<in>set [0..<length xs]. xs ! i = v)"
    then obtain i where i: "i \<in> set [0..<length xs]" "xs ! i \<noteq> v"
      by blast
    have "length (filter (\<lambda>i. xs ! i = v) [0..<length xs]) < length [0..<length xs]"
      using i by (intro length_filter_less [of i]) simp_all
    with full show False by simp
  qed
  have "x = v" if "x \<in> set xs" for x
  proof -
    from that obtain i where "i < length xs" "xs ! i = x"
      by (metis in_set_conv_nth)
    with all show ?thesis by simp
  qed
  with v have "set xs = {v}"
    by blast
  then have "remdups (sort xs) = [v]"
    by (intro distinct_set_singleton) simp_all
  moreover have "filter (\<lambda>i. xs ! i = v) [0..<length xs] = [0..<length xs]"
    using all by (simp add: filter_id_conv)
  ultimately show ?thesis
    by (simp add: partition_col_def)
qed

lemma length_partition_le:
  "(v, p) \<in> set (partition_col xs) \<Longrightarrow> length p \<le> length xs"
  using length_filter_le [of "\<lambda>i. xs ! i = v" "[0..<length xs]"]
  by (auto simp: partition_col_def)

lemma vtake_all: "vtake Y [0..<vlen Y] = Y"
  by (cases Y) (simp_all add: map_nth)

lemma gain_of_single_partition:
  assumes "partition_values (column data (i + 1)) = [[0..<nrows data]]"
    and "gain_of data i = Inr g"
  shows "g = 0"
proof -
  have len: "vlen (column data j) = nrows data" for j
    by (cases data) simp_all
  have "nrows data \<noteq> 0"
    using assms(1) by (cases data) (auto simp: partition_col_def)
  with assms show ?thesis
    by (auto simp: gain_of_def entropy_Y_Xa_def len vtake_all [of "column data 0", unfolded len]
        split: sum.splits)
qed

lemma split_smaller:
  assumes "best_attribute (IntArray k rs) = Inr (g, a)" and "0 < g"
    and "(v, p) \<in> set (partition_col (map (\<lambda>r. r ! nat a) rs))"
  shows "length p < length rs"
proof (rule ccontr)
  assume "\<not> length p < length rs"
  then have whole: "partition_col (map (\<lambda>r. r ! nat a) rs) = [(v, [0..<length rs])]"
    using partition_col_whole [OF assms(3)] by simp
  from assms(1) have "best_loop (IntArray k rs) [0..<k - 1] (- 1, - 1) = Inr (g, a)"
    by (simp add: best_attribute_def split: if_splits)
  from best_loop_result [OF this] assms(2)
  obtain i where i: "a = int i + 1" "gain_of (IntArray k rs) i = Inr g"
    by auto
  have "nat a = i + 1" using i(1) by simp
  with whole have "partition_values (column (IntArray k rs) (i + 1)) = [[0..<nrows (IntArray k rs)]]"
    by simp
  from gain_of_single_partition [OF this i(2)] assms(2) show False by simp
qed

text \<open>
  \<^verbatim>\<open>
  def _build_tree(data, parent=None):
      Y = data[:, 0]
      nsamples = np.bincount(Y)
      if len(set(Y)) <= 1:
          return Node(parent, nsamples)
      gain, attr_idx = DecisionTree._best_attribute(data)
      if gain > 0:
          this_node = Node(parent, nsamples, attr_idx)
          this_node.children = {
              v: DecisionTree._build_tree(data[p], parent=this_node)
              for v, p in partition(data[:, attr_idx]).items()
          }
          return this_node
      else:
          return Node(parent, nsamples)
  \<close>
  \<^verbatim>\<open>data[:, 0]\<close> raises IndexError on an array without columns.  A float array
  fails at \<^verbatim>\<open>np.bincount\<close>.  When the gain is positive, \<open>attr_idx\<close> is at least 1
  (\<open>best_loop_result\<close>), so \<^verbatim>\<open>data[:, attr_idx]\<close> is column \<open>nat attr_idx\<close>.
\<close>

function build_tree :: "ndarray \<Rightarrow> error + node" where
  "build_tree (FloatArray k rs) = (if k = 0 then Inl IndexError else Inl TypeError)"
| "build_tree (IntArray k rs) =
     (if k = 0 then Inl IndexError
      else case bincount (column (IntArray k rs) 0) of
        Inl e \<Rightarrow> Inl e
      | Inr ns \<Rightarrow>
          if length (remdups (map (\<lambda>r. r ! 0) rs)) \<le> 1 then new_node ns None
          else (case best_attribute (IntArray k rs) of
            Inl e \<Rightarrow> Inl e
          | Inr (gain, a) \<Rightarrow>
              if gain > 0 then
                (case new_node ns (Some a) of
                   Inl e \<Rightarrow> Inl e
                 | Inr this_node \<Rightarrow>
                     (case collect (map (\<lambda>(v, p).
                              case build_tree (take_rows (IntArray k rs) p) of
                                Inl e \<Rightarrow> Inl e
                              | Inr c \<Rightarrow> Inr (v, c))
                            (partition_col (map (\<lambda>r. r ! nat a) rs))) of
                        Inl e \<Rightarrow> Inl e
                      | Inr kids \<Rightarrow>
                          Inr (Node (nsamples this_node) (cls this_node) (attr_idx this_node) kids)))
              else new_node ns None))"
  by pat_completeness auto
termination
proof (relation "measure nrows")
  show "wf (measure nrows)" by simp
next
  fix k rs ns ga gain a this_node vp v p
  assume "best_attribute (IntArray k rs) = Inr ga" "(gain, a) = ga" "0 < gain"
    "vp \<in> set (partition_col (map (\<lambda>r. r ! nat a) rs))" "(v, p) = vp"
  then have "length p < length rs"
    using split_smaller [of k rs gain a v p] by simp
  then show "(take_rows (IntArray k rs) p, IntArray k rs) \<in> measure nrows"
    by simp
qed

declare build_tree.simps [simp del]

section \<open>Prediction and scoring\<close>

text \<open>
  An example \<open>x\<close> is a row of an integer array.  \<^verbatim>\<open>x[i]\<close> follows Python's indexing:
  a negative index counts from the end, an index out of range raises IndexError.
\<close>

definition py_index :: "'a list \<Rightarrow> int \<Rightarrow> error + 'a" where
  "py_index xs i =
     (if 0 \<le> i \<and> i < int (length xs) then Inr (xs ! nat i)
      else if i < 0 \<and> - int (length xs) \<le> i then Inr (xs ! nat (int (length xs) + i))
      else Inl IndexError)"

lemma map_of_size:
  "map_of kids v = Some (child :: node) \<Longrightarrow> size child < Suc (size_list (size_prod (\<lambda>_. 0) size) kids)"
  by (induction kids) (auto split: if_splits)

text \<open>
  \<^verbatim>\<open>
  def _predict(dtree, x):
      if not dtree.children:
          return dtree.cls
      else:
          child = dtree.children.get(x[dtree.attr_idx])
          if not child:
              return dtree.cls
          else:
              return DecisionTree._predict(child, x)
  \<close>
  A node object is always true in a boolean context, so \<^verbatim>\<open>not child\<close> holds exactly
  when the dictionary has no entry.  An internal node without \<open>attr_idx\<close> (the
  builder makes none) would index by \<^verbatim>\<open>None\<close> and fail with TypeError at the lookup.
\<close>

function predict :: "node \<Rightarrow> int list \<Rightarrow> error + nat" where
  "predict (Node ns c a kids) x =
     (if kids = [] then Inr c
      else case a of
        None \<Rightarrow> Inl TypeError
      | Some i \<Rightarrow>
          (case py_index x i of
             Inl e \<Rightarrow> Inl e
           | Inr v \<Rightarrow>
               (case map_of kids v of
                  None \<Rightarrow> Inr c
                | Some child \<Rightarrow> predict child x)))"
  by pat_completeness auto
termination
  by (relation "measure (\<lambda>(n, x). size n)") (auto dest: map_of_size)

text \<open>
  \<^verbatim>\<open>
  def accuracy(actual, predicted):
      assert len(actual) == len(predicted)
      correct = sum([a == p for (a, p) in zip(actual, predicted)])
      return correct / len(actual)
  \<close>
  (\<^verbatim>\<open>src/2/common.py\<close>).
\<close>

definition accuracy :: "int list \<Rightarrow> int list \<Rightarrow> error + real" where
  "accuracy actual predicted =
     (if length actual \<noteq> length predicted then Inl AssertionError
      else if length actual = 0 then Inl ZeroDivisionError
      else Inr (real (length (filter (\<lambda>(a, p). a = p) (zip actual predicted)))
                / real (length actual)))"

text \<open>
  \<^verbatim>\<open>
  def score(self, data):
      predictions = [self._predict(self.root, x) for x in data]
      return accuracy(data[:, 0], predictions)
  \<close>
  for an integer array \<open>data\<close> of \<open>k\<close> columns with rows \<open>rs\<close>.  A tree object is
  its root node.
\<close>

definition score :: "node \<Rightarrow> nat \<Rightarrow> int list list \<Rightarrow> error + real" where
  "score dtree k rs =
     (case collect (map (predict dtree) rs) of
        Inl e \<Rightarrow> Inl e
      | Inr predictions \<Rightarrow>
          if k = 0 then Inl IndexError
          else accuracy (map (\<lambda>r. r ! 0) rs) (map int predictions))"

section \<open>Tree utilities\<close>

text \<open>
  \<^verbatim>\<open>
  def _height(dtree):
      if not dtree.children:
          return 0
      else:
          return 1 + max(map(DecisionTree._height, dtree.children.values()))

  def _node_count(dtree):
      if not dtree.children:
          return 1
      else:
          return 1 + sum(map(DecisionTree._node_count, dtree.children.values()))
  \<close>
\<close>

fun height :: "node \<Rightarrow> nat" where
  "height (Node ns c a kids) =
     (if kids = [] then 0 else 1 + Max (set (map (\<lambda>kv. height (snd kv)) kids)))"

fun node_count :: "node \<Rightarrow> nat" where
  "node_count (Node ns c a kids) =
     (if kids = [] then 1 else 1 + sum_list (map (\<lambda>kv. node_count (snd kv)) kids))"

text \<open>
  A reference to a node of a tree is its position: the indices, in dictionary
  order, of the children to follow from the root.
\<close>

type_synonym pos = "nat list"

fun node_at :: "node \<Rightarrow> pos \<Rightarrow> node option" where
  "node_at n [] = Some n"
| "node_at n (i # p) =
     (if i < length (children n) then node_at (snd (children n ! i)) p else None)"

text \<open>\<^verbatim>\<open>node.children.values()\<close>, each child with its position.\<close>

definition kids_at :: "pos \<Rightarrow> node \<Rightarrow> (pos \<times> node) list" where
  "kids_at p n = map (\<lambda>i. (p @ [i], snd (children n ! i))) [0..<length (children n)]"

text \<open>
  \<^verbatim>\<open>
  def nodes(self):
      q = deque([self.root])
      while q:
          node = q.popleft()
          q.extend(node.children.values())
          yield node
  \<close>
  The loop on the queue \<open>q\<close>; the result is the sequence of nodes yielded.
\<close>

lemma map_index_nth: "map (\<lambda>i. f (xs ! i)) [0..<length xs] = map f xs"
  by (rule nth_equalityI) auto

lemma size_kids_at:
  "sum_list (map (\<lambda>pn. size (snd pn)) (kids_at p n)) < size n"
proof (cases n)
  case (Node ns c a kids)
  have "sum_list (map (\<lambda>i. size (snd (kids ! i))) [0..<length kids])
          = sum_list (map (\<lambda>kv. size (snd kv)) kids)"
    by (simp add: map_index_nth [of "\<lambda>kv. size (snd kv)" kids])
  also have "\<dots> \<le> size_list (size_prod (\<lambda>_. 0) size) kids"
    by (induction kids) auto
  finally show ?thesis
    using Node by (simp add: kids_at_def comp_def)
qed

function bfs :: "(pos \<times> node) list \<Rightarrow> (pos \<times> node) list" where
  "bfs [] = []"
| "bfs ((p, n) # q) = (p, n) # bfs (q @ kids_at p n)"
  by pat_completeness auto
termination
proof (relation "measure (\<lambda>q. sum_list (map (\<lambda>pn. size (snd pn)) q))")
  show "wf (measure (\<lambda>q. sum_list (map (\<lambda>pn. size (snd pn)) q)))" by simp
next
  fix p n q
  show "(q @ kids_at p n, (p, n) # q) \<in> measure (\<lambda>q. sum_list (map (\<lambda>pn. size (snd pn)) q))"
    using size_kids_at [of p n] by simp
qed

definition nodes :: "node \<Rightarrow> (pos \<times> node) list" where
  "nodes dtree = bfs [([], dtree)]"

section \<open>Pruning\<close>

text \<open>
  Python's \<^verbatim>\<open>min\<close> raises ValueError on an empty sequence.
\<close>

definition py_min :: "nat list \<Rightarrow> error + nat" where
  "py_min ns = (if ns = [] then Inl ValueError else Inr (Min (set ns)))"

text \<open>
  \<^verbatim>\<open>
  node_err_rate = min(node.nsamples) / sum(node.nsamples)
  children_err_rate = sum(
      min(child.nsamples) / sum(node.nsamples)
      for child in node.children.values()
  )
  \<close>
  The division is numpy's: a zero divisor raises nothing (the quotient is \<open>nan\<close> or
  \<open>inf\<close>, and \<^verbatim>\<open>children_err_rate > node_err_rate\<close> is then false, since
  \<open>node_err_rate\<close> is \<open>nan\<close>).  With HOL's \<open>x / 0 = 0\<close> both rates are 0 in that case
  and the comparison is false as well.
  The rates are exact reals here.  In float64 a sum of rounded quotients can exceed
  an equal exact value (\<open>0.1 + 0.2 > 0.3\<close>), so at a tie of the exact rates the
  code may collapse a node that this model keeps; the examples below have no such
  tie (their rates differ, or sum without rounding).
\<close>

definition node_err_rate :: "node \<Rightarrow> error + real" where
  "node_err_rate n =
     (case py_min (nsamples n) of
        Inl e \<Rightarrow> Inl e
      | Inr m \<Rightarrow> Inr (real m / real (sum_list (nsamples n))))"

definition children_err_rate :: "node \<Rightarrow> error + real" where
  "children_err_rate n =
     sum_err (map (\<lambda>kv. case py_min (nsamples (snd kv)) of
                           Inl e \<Rightarrow> Inl e
                         | Inr m \<Rightarrow> Inr (real m / real (sum_list (nsamples n))))
                  (children n))"

text \<open>
  The assignment \<^verbatim>\<open>node.children = kids\<close> to the node at position \<open>p\<close> of the tree.
\<close>

fun set_children_at :: "node \<Rightarrow> pos \<Rightarrow> (int \<times> node) list \<Rightarrow> node" where
  "set_children_at n [] kids = Node (nsamples n) (cls n) (attr_idx n) kids"
| "set_children_at n (i # p) kids =
     (if i < length (children n)
      then Node (nsamples n) (cls n) (attr_idx n)
             ((children n)[i := (fst (children n ! i), set_children_at (snd (children n ! i)) p kids)])
      else n)"

text \<open>
  \<^verbatim>\<open>
  def prune(self):
      nodes = list(self.nodes())
      nodes.reverse()
      for node in nodes:
          if not node.children:
              continue
          node_err_rate = min(node.nsamples) / sum(node.nsamples)
          children_err_rate = sum(...)
          if children_err_rate > node_err_rate:
              node.children = {}
  \<close>
  The body of the loop reads the node through its reference, that is, as it stands in
  the tree at that moment.  A node's descendants come after it in the breadth-first
  list, hence before it in the reversed list: when a node is visited it is still
  in the tree.
\<close>

definition prune_step :: "pos \<Rightarrow> node \<Rightarrow> error + node" where
  "prune_step p dtree =
     (case node_at dtree p of
        None \<Rightarrow> Inr dtree
      | Some n \<Rightarrow>
          if children n = [] then Inr dtree
          else (case node_err_rate n of
            Inl e \<Rightarrow> Inl e
          | Inr node_err \<Rightarrow>
              (case children_err_rate n of
                 Inl e \<Rightarrow> Inl e
               | Inr children_err \<Rightarrow>
                   if children_err > node_err then Inr (set_children_at dtree p [])
                   else Inr dtree)))"

fun prune_loop :: "pos list \<Rightarrow> node \<Rightarrow> error + node" where
  "prune_loop [] dtree = Inr dtree"
| "prune_loop (p # ps) dtree =
     (case prune_step p dtree of
        Inl e \<Rightarrow> Inl e
      | Inr dtree' \<Rightarrow> prune_loop ps dtree')"

definition prune :: "node \<Rightarrow> error + node" where
  "prune dtree = prune_loop (rev (map fst (nodes dtree))) dtree"

section \<open>The error rates as the specification words them\<close>

text \<open>
  The specification gives the rate of a node as \<open>(total_count - max(class_counts)) /
  total_count\<close> and the rate of its children as the sum over the children of
  \<open>(child_total - max(child.class_counts))\<close> divided by the node's \<open>total_count\<close>.
\<close>

definition spec_node_error_rate :: "node \<Rightarrow> real" where
  "spec_node_error_rate n =
     (real (sum_list (nsamples n)) - real (Max (set (nsamples n)))) / real (sum_list (nsamples n))"

definition spec_children_error_rate :: "node \<Rightarrow> real" where
  "spec_children_error_rate n =
     sum_list (map (\<lambda>kv. (real (sum_list (nsamples (snd kv))) - real (Max (set (nsamples (snd kv)))))
                          / real (sum_list (nsamples n)))
                   (children n))"

text \<open>
  \<^verbatim>\<open>
  def _remove_node(node):
      parent = node.parent
      if parent is None:
          return
      for v, n in parent.children.items():
          if n == node:
              del parent.children[v]
              break
      return parent
  \<close>
  The node at a position; the root is the node without parent.  The result is the
  tree after the call.  \<^verbatim>\<open>prune\<close> does not call it.
\<close>

fun remove_node :: "node \<Rightarrow> pos \<Rightarrow> node" where
  "remove_node dtree [] = dtree"
| "remove_node dtree (i # p) =
     (case node_at dtree (butlast (i # p)) of
        None \<Rightarrow> dtree
      | Some parent \<Rightarrow>
          set_children_at dtree (butlast (i # p))
            (take (last (i # p)) (children parent) @ drop (Suc (last (i # p))) (children parent)))"

section \<open>Examples\<close>

text \<open>
  A training set of three rows with one attribute that separates the classes, and
  the tree the builder makes of it: a root with two pure leaves.
\<close>

definition split_data :: "int list list" where
  "split_data = [[0, 0], [0, 0], [1, 1]]"

definition split_tree :: node where
  "split_tree = Node [2, 1] 0 (Some 1) [(0, Node [2] 0 None []), (1, Node [0, 1] 1 None [])]"

definition split_tree_pruned :: node where
  "split_tree_pruned = Node [2, 1] 0 (Some 1) []"

lemma log2_third: "log 2 (1 / 3) < - (2 * log 2 (2 / 3))"
proof -
  have "log 2 (1 / 3) < 0" "log 2 (2 / 3) < 0" by simp_all
  then show ?thesis by linarith
qed

lemma build_split_data: "build_tree (IntArray 2 split_data) = Inr split_tree"
  unfolding split_data_def split_tree_def using log2_third
  by (simp add: build_tree.simps best_attribute_def gain_of_def entropy_Y_Xa_def entropy_def partition_col_def
      upt_rec new_node_def argmax_def)

lemma nodes_split_tree:
  "nodes split_tree = [([], split_tree), ([0], Node [2] 0 None []), ([1], Node [0, 1] 1 None [])]"
  by (simp add: nodes_def split_tree_def kids_at_def upt_rec)

lemma rates_split_tree:
  "node_err_rate split_tree = Inr (1 / 3)" "children_err_rate split_tree = Inr (2 / 3)"
  by (simp_all add: split_tree_def node_err_rate_def children_err_rate_def py_min_def)

lemma prune_split_tree: "prune split_tree = Inr split_tree_pruned"
proof -
  have "prune_step [] split_tree = Inr split_tree_pruned"
    by (simp add: prune_step_def rates_split_tree) (simp add: split_tree_def split_tree_pruned_def)
  moreover have "prune_step [0] split_tree = Inr split_tree" "prune_step [1] split_tree = Inr split_tree"
    by (simp_all add: prune_step_def split_tree_def)
  ultimately show ?thesis
    by (simp add: prune_def nodes_split_tree)
qed

text \<open>
  Claim C1 (the rates \<^verbatim>\<open>prune\<close> computes are \<open>(total - max) / total\<close> for the node and
  the sum of \<open>(child_total - max(child counts))\<close> over the node's total for its
  children, and the node is collapsed exactly when the second exceeds the first).
  The code takes \<^verbatim>\<open>min(nsamples)\<close> where the claim has \<open>total - max\<close>.  On the root of
  \<open>split_tree\<close>, whose first child has the one-slot histogram \<open>[2]\<close>, the code's
  children rate is \<open>2/3\<close> where the claim's is \<open>0\<close>, and the root is collapsed
  although its children classify every training row.
\<close>

theorem prune_rates_use_min:
  "node_err_rate split_tree = Inr (1 / 3)
   \<and> spec_node_error_rate split_tree = 1 / 3
   \<and> children_err_rate split_tree = Inr (2 / 3)
   \<and> spec_children_error_rate split_tree = 0
   \<and> prune split_tree = Inr split_tree_pruned
   \<and> children split_tree_pruned = []"
proof -
  have "spec_node_error_rate split_tree = 1 / 3" "spec_children_error_rate split_tree = 0"
    by (simp_all add: split_tree_def spec_node_error_rate_def spec_children_error_rate_def)
  moreover have "children split_tree_pruned = []"
    by (simp add: split_tree_pruned_def)
  ultimately show ?thesis
    using rates_split_tree prune_split_tree by simp
qed

text \<open>
  Claim C2 (pruning never increases the node count and never lowers the accuracy
  that \<^verbatim>\<open>score\<close> returns on the training set).  The tree built from \<open>split_data\<close>
  scores 1 on \<open>split_data\<close>; after \<^verbatim>\<open>prune\<close> it scores \<open>2/3\<close>.
\<close>

theorem prune_lowers_training_score:
  "build_tree (IntArray 2 split_data) = Inr split_tree
   \<and> score split_tree 2 split_data = Inr 1
   \<and> prune split_tree = Inr split_tree_pruned
   \<and> score split_tree_pruned 2 split_data = Inr (2 / 3)"
proof -
  have "score split_tree 2 split_data = Inr 1"
    by (simp add: score_def split_tree_def split_data_def py_index_def accuracy_def)
  moreover have "score split_tree_pruned 2 split_data = Inr (2 / 3)"
    by (simp add: score_def split_tree_pruned_def split_data_def accuracy_def)
  ultimately show ?thesis
    using build_split_data prune_split_tree by simp
qed

text \<open>
  Claim C10 (the root is not exempt from collapse: for some built tree \<^verbatim>\<open>prune\<close>
  empties the root's own children, leaving a single leaf; only \<^verbatim>\<open>_remove_node\<close>
  guards the root).  The tree built from \<open>split_data\<close> has three nodes; pruned, it
  is its root alone.
\<close>

theorem prune_collapses_root:
  "build_tree (IntArray 2 split_data) = Inr split_tree
   \<and> node_count split_tree = 3
   \<and> prune split_tree = Inr split_tree_pruned
   \<and> children split_tree_pruned = []
   \<and> node_count split_tree_pruned = 1
   \<and> remove_node split_tree [] = split_tree"
proof -
  have "node_count split_tree = 3" "node_count split_tree_pruned = 1"
    "children split_tree_pruned = []"
    by (simp_all add: split_tree_def split_tree_pruned_def)
  then show ?thesis
    using build_split_data prune_split_tree by simp
qed

section \<open>Inputs the builder refuses\<close>



text \<open>
  Claim C8 (building from a dataset without rows fails; no degenerate node is
  returned).  An integer array without rows has the empty histogram, whose
  \<^verbatim>\<open>argmax\<close> raises ValueError in \<^verbatim>\<open>Node.__init__\<close>; a float array fails at
  \<^verbatim>\<open>np.bincount\<close>; an array without columns fails at \<^verbatim>\<open>data[:, 0]\<close>.
\<close>

theorem build_tree_empty_fails:
  "build_tree (IntArray k []) = Inl (if k = 0 then IndexError else ValueError)
   \<and> build_tree (FloatArray k []) = Inl (if k = 0 then IndexError else TypeError)"
  by (simp add: build_tree.simps new_node_def argmax_def)







section \<open>The walk of the predictor\<close>

text \<open>
  The walk as the specification words it: start at the root; at a leaf stop; at an
  internal node look the example's value of the split attribute up among the
  children; if it is there descend, if it is absent stop at this node.
  \<open>spec_walk x t n\<close>: the walk of example \<open>x\<close> from \<open>t\<close> stops at node \<open>n\<close>.
\<close>

inductive spec_walk :: "int list \<Rightarrow> node \<Rightarrow> node \<Rightarrow> bool" for x where
  at_leaf: "children t = [] \<Longrightarrow> spec_walk x t t"
| unseen: "children t \<noteq> [] \<Longrightarrow> attr_idx t = Some i \<Longrightarrow> py_index x i = Inr v
           \<Longrightarrow> map_of (children t) v = None \<Longrightarrow> spec_walk x t t"
| descend: "children t \<noteq> [] \<Longrightarrow> attr_idx t = Some i \<Longrightarrow> py_index x i = Inr v
           \<Longrightarrow> map_of (children t) v = Some c \<Longrightarrow> spec_walk x c n \<Longrightarrow> spec_walk x t n"

text \<open>Every internal node of the tree splits on one of the columns \<open>1, ..., k - 1\<close>.\<close>

fun attrs_in_range :: "nat \<Rightarrow> node \<Rightarrow> bool" where
  "attrs_in_range k (Node ns c a kids) =
     (kids = [] \<or>
      (case a of None \<Rightarrow> False | Some i \<Rightarrow> 1 \<le> i \<and> i < int k)
      \<and> list_all (\<lambda>kv. attrs_in_range k (snd kv)) kids)"

lemma collect_map_Inr:
  "collect (map f xs) = Inr ys \<Longrightarrow> y \<in> set ys \<Longrightarrow> \<exists>x\<in>set xs. f x = Inr y"
proof (induction xs arbitrary: ys)
  case Nil
  then show ?case by simp
next
  case (Cons x xs)
  then show ?case
    by (auto split: sum.splits)
qed

lemma new_node_fields:
  "new_node ns a = Inr t \<Longrightarrow> attr_idx t = a \<and> children t = [] \<and> nsamples t = ns"
  by (auto simp: new_node_def split: sum.splits)

lemma best_attribute_range:
  assumes "best_attribute data = Inr (g, a)" and "0 < g"
  shows "1 \<le> a \<and> a < int (ncols data)"
proof -
  from assms(1) have "best_loop data [0..<ncols data - 1] (- 1, - 1) = Inr (g, a)"
    by (simp add: best_attribute_def split: if_splits)
  from best_loop_result [OF this] assms(2)
  obtain i where "i \<in> set [0..<ncols data - 1]" "a = int i + 1"
    by auto
  then show ?thesis by auto
qed

lemma build_tree_attrs:
  "build_tree data = Inr t \<Longrightarrow> attrs_in_range (ncols data) t"
proof (induction data arbitrary: t rule: build_tree.induct)
  case (1 k rs)
  then show ?case by (simp add: build_tree.simps split: if_splits)
next
  case (2 k rs)
  note build = "2.prems"
  show ?case
  proof (cases "children t = []")
    case True
    then show ?thesis by (cases t) simp
  next
    case False
    from build obtain ns gain a this_node kids where
      k: "0 < k" and
      bc: "bincount (column (IntArray k rs) 0) = Inr ns" and
      impure: "\<not> length (remdups (map (\<lambda>r. r ! 0) rs)) \<le> 1" and
      best: "best_attribute (IntArray k rs) = Inr (gain, a)" and
      gain: "0 < gain" and
      node: "new_node ns (Some a) = Inr this_node" and
      kids: "collect (map (\<lambda>(v, p). case build_tree (take_rows (IntArray k rs) p) of
                                Inl e \<Rightarrow> Inl e | Inr c \<Rightarrow> Inr (v, c))
                (partition_col (map (\<lambda>r. r ! nat a) rs))) = Inr kids" and
      t: "t = Node (nsamples this_node) (cls this_node) (attr_idx this_node) kids"
      using False
      by (subst (asm) build_tree.simps)
        (auto split: if_splits sum.splits prod.splits dest: new_node_fields)
    have "attrs_in_range k (snd kv)" if "kv \<in> set kids" for kv
    proof -
      from collect_map_Inr [OF kids that] obtain v p where
        vp: "(v, p) \<in> set (partition_col (map (\<lambda>r. r ! nat a) rs))" and
        sub: "build_tree (take_rows (IntArray k rs) p) = Inr (snd kv)"
        by (auto split: sum.splits)
      from "2.IH" [OF _ bc impure best refl gain node vp refl sub] k
      show ?thesis by simp
    qed
    then have "list_all (\<lambda>kv. attrs_in_range k (snd kv)) kids"
      by (simp add: list_all_iff)
    moreover have "attr_idx this_node = Some a"
      using node by (simp add: new_node_fields)
    moreover have "1 \<le> a \<and> a < int k"
      using best_attribute_range [OF best gain] by simp
    ultimately show ?thesis
      using t by simp
  qed
qed

lemma predict_follows_walk:
  "attrs_in_range (length x) t \<Longrightarrow> \<exists>n. spec_walk x t n \<and> predict t x = Inr (cls n)"
proof (induction t x rule: predict.induct)
  case (1 ns c a kids x)
  show ?case
  proof (cases "kids = []")
    case True
    then have "spec_walk x (Node ns c a kids) (Node ns c a kids)"
      by (simp add: spec_walk.at_leaf)
    with True show ?thesis by auto
  next
    case False
    with "1.prems" obtain i where a: "a = Some i" and i: "1 \<le> i" "i < int (length x)"
      and sub: "list_all (\<lambda>kv. attrs_in_range (length x) (snd kv)) kids"
      by (auto split: option.splits)
    from i have idx: "py_index x i = Inr (x ! nat i)"
      by (simp add: py_index_def)
    show ?thesis
    proof (cases "map_of kids (x ! nat i)")
      case None
      have "spec_walk x (Node ns c a kids) (Node ns c a kids)"
        by (rule spec_walk.unseen [where i = i and v = "x ! nat i"])
          (insert False a idx None, simp_all)
      moreover have "predict (Node ns c a kids) x = Inr c"
        using False a idx None by simp
      ultimately show ?thesis by auto
    next
      case (Some child)
      then have "(x ! nat i, child) \<in> set kids"
        by (rule map_of_SomeD)
      with sub have "attrs_in_range (length x) child"
        by (auto simp: list_all_iff)
      from "1.IH" [OF False a idx Some this] obtain n where
        n: "spec_walk x child n" "predict child x = Inr (cls n)"
        by blast
      have "spec_walk x (Node ns c a kids) n"
        by (rule spec_walk.descend [where i = i and v = "x ! nat i" and c = child])
          (insert False a idx Some n(1), simp_all)
      moreover have "predict (Node ns c a kids) x = Inr (cls n)"
        using False a idx Some n(2) by simp
      ultimately show ?thesis by auto
    qed
  qed
qed

text \<open>
  Claim C5 (for every built tree and every example, the predictor walks from the
  root, stops at the first internal node whose children have no key equal to the
  example's value of the split attribute, and returns that node's majority class
  instead of raising; at a leaf it returns the leaf's majority class).  For a tree
  built from an array of \<open>k\<close> columns and an example of \<open>k\<close> entries the walk
  stops at some node \<open>n\<close>, and \<^verbatim>\<open>_predict\<close> returns the class of \<open>n\<close>.
\<close>

theorem predict_falls_back_to_majority:
  assumes "build_tree data = Inr t" and "length x = ncols data"
  shows "\<exists>n. spec_walk x t n \<and> predict t x = Inr (cls n)"
  using predict_follows_walk [of x t] build_tree_attrs [OF assms(1)] assms(2) by simp

theorem predict_falls_back_to_majority_witness:
  "\<exists>n. spec_walk [0, 7] split_tree n \<and> predict split_tree [0, 7] = Inr (cls n)"
  using predict_falls_back_to_majority [OF build_split_data, of "[0, 7]"] by simp

lemma predict_unseen_value: "predict split_tree [0, 7] = Inr 0"
  by (simp add: split_tree_def py_index_def)

section \<open>What pruning changes\<close>

text \<open>
  \<open>collapsed t t'\<close>: the tree \<open>t'\<close> is \<open>t\<close> with the children of some nodes
  replaced by the empty dictionary, and nothing else changed: every node of \<open>t'\<close>
  stands where it stood in \<open>t\<close> (under the same parent and key), with the same
  class counts, majority class and split attribute.
\<close>

inductive collapsed :: "node \<Rightarrow> node \<Rightarrow> bool" where
  emptied: "collapsed (Node ns c a kids) (Node ns c a [])"
| kept: "list_all2 (\<lambda>kc kc'. fst kc = fst kc' \<and> collapsed (snd kc) (snd kc')) kids kids'
         \<Longrightarrow> collapsed (Node ns c a kids) (Node ns c a kids')"

lemma snd_in_snds: "snd x \<in> Basic_BNFs.snds x"
  by (cases x) simp

lemma collapsed_refl: "collapsed t t"
proof (induction t)
  case (Node ns c a kids)
  have "list_all2 (\<lambda>kc kc'. fst kc = fst kc' \<and> collapsed (snd kc) (snd kc')) kids kids"
  proof (rule list_all2_all_nthI)
    show "length kids = length kids" by simp
  next
    fix i assume "i < length kids"
    then have "kids ! i \<in> set kids" by simp
    then have "collapsed (snd (kids ! i)) (snd (kids ! i))"
      by (rule Node.IH [OF _ snd_in_snds])
    then show "fst (kids ! i) = fst (kids ! i) \<and> collapsed (snd (kids ! i)) (snd (kids ! i))"
      by simp
  qed
  then show ?case by (rule collapsed.kept)
qed

lemma collapsed_fields:
  "collapsed t t' \<Longrightarrow> nsamples t' = nsamples t \<and> cls t' = cls t \<and> attr_idx t' = attr_idx t"
  by (induction rule: collapsed.induct) simp_all

lemma collapsed_children:
  "collapsed t t' \<Longrightarrow>
     children t' = [] \<or>
     list_all2 (\<lambda>kc kc'. fst kc = fst kc' \<and> collapsed (snd kc) (snd kc')) (children t) (children t')"
  by (erule collapsed.cases) simp_all

lemma collapsed_trans: "collapsed t t' \<Longrightarrow> collapsed t' t'' \<Longrightarrow> collapsed t t''"
proof (induction t arbitrary: t' t'')
  case (Node ns c a kids)
  from Node.prems(1) obtain kids' where t': "t' = Node ns c a kids'"
    by (auto elim: collapsed.cases)
  from Node.prems(2) t' obtain kids'' where t'': "t'' = Node ns c a kids''"
    by (auto elim: collapsed.cases)
  show ?case
  proof (cases "kids'' = []")
    case True
    then show ?thesis using t'' by (simp add: collapsed.emptied)
  next
    case False
    with collapsed_children [OF Node.prems(2)] t' t''
    have r2: "list_all2 (\<lambda>kc kc'. fst kc = fst kc' \<and> collapsed (snd kc) (snd kc')) kids' kids''"
      by simp
    then have "kids' \<noteq> []" using False by auto
    with collapsed_children [OF Node.prems(1)] t'
    have r1: "list_all2 (\<lambda>kc kc'. fst kc = fst kc' \<and> collapsed (snd kc) (snd kc')) kids kids'"
      by simp
    have "list_all2 (\<lambda>kc kc'. fst kc = fst kc' \<and> collapsed (snd kc) (snd kc')) kids kids''"
    proof (rule list_all2_all_nthI)
      show "length kids = length kids''"
        using r1 r2 by (simp add: list_all2_lengthD)
    next
      fix i assume i: "i < length kids"
      then have i': "i < length kids'" using r1 by (simp add: list_all2_lengthD)
      have s1: "fst (kids ! i) = fst (kids' ! i)" "collapsed (snd (kids ! i)) (snd (kids' ! i))"
        using list_all2_nthD [OF r1 i] by simp_all
      have s2: "fst (kids' ! i) = fst (kids'' ! i)" "collapsed (snd (kids' ! i)) (snd (kids'' ! i))"
        using list_all2_nthD [OF r2 i'] by simp_all
      have "kids ! i \<in> set kids" using i by simp
      then have "collapsed (snd (kids ! i)) (snd (kids'' ! i))"
        by (rule Node.IH [OF _ snd_in_snds s1(2) s2(2)])
      with s1 s2 show "fst (kids ! i) = fst (kids'' ! i) \<and> collapsed (snd (kids ! i)) (snd (kids'' ! i))"
        by simp
    qed
    then show ?thesis using t'' by (simp add: collapsed.kept)
  qed
qed

lemma collapsed_set_children_at: "collapsed t (set_children_at t p [])"
proof (induction p arbitrary: t)
  case Nil
  show ?case by (cases t) (simp add: collapsed.emptied)
next
  case (Cons i p)
  show ?case
  proof (cases "i < length (children t)")
    case False
    then show ?thesis by (simp add: collapsed_refl)
  next
    case True
    obtain ns c a kids where t: "t = Node ns c a kids" by (cases t)
    let ?kids' = "kids[i := (fst (kids ! i), set_children_at (snd (kids ! i)) p [])]"
    have "list_all2 (\<lambda>kc kc'. fst kc = fst kc' \<and> collapsed (snd kc) (snd kc')) kids ?kids'"
    proof (rule list_all2_all_nthI)
      show "length kids = length ?kids'" by simp
    next
      fix j assume "j < length kids"
      then show "fst (kids ! j) = fst (?kids' ! j) \<and> collapsed (snd (kids ! j)) (snd (?kids' ! j))"
        using Cons.IH [of "snd (kids ! i)"] by (cases "j = i") (simp_all add: collapsed_refl)
    qed
    then show ?thesis using True t by (simp add: collapsed.kept)
  qed
qed

lemma prune_step_collapsed: "prune_step p t = Inr t' \<Longrightarrow> collapsed t t'"
  by (auto simp: prune_step_def collapsed_refl collapsed_set_children_at
      split: option.splits if_splits sum.splits)

lemma prune_loop_collapsed: "prune_loop ps t = Inr t' \<Longrightarrow> collapsed t t'"
proof (induction ps arbitrary: t)
  case Nil
  then show ?case by (simp add: collapsed_refl)
next
  case (Cons p ps)
  then obtain t1 where "prune_step p t = Inr t1" "prune_loop ps t1 = Inr t'"
    by (auto split: sum.splits)
  then show ?case
    using Cons.IH prune_step_collapsed collapsed_trans by blast
qed

lemma collapsed_node_at:
  "collapsed t t' \<Longrightarrow> node_at t' p = Some n' \<Longrightarrow> \<exists>n. node_at t p = Some n \<and> collapsed n n'"
proof (induction p arbitrary: t t')
  case Nil
  then show ?case by simp
next
  case (Cons i p)
  from Cons.prems(2) have i: "i < length (children t')"
    and sub: "node_at (snd (children t' ! i)) p = Some n'"
    by (simp_all split: if_splits)
  then have "children t' \<noteq> []" by auto
  with collapsed_children [OF Cons.prems(1)]
  have r: "list_all2 (\<lambda>kc kc'. fst kc = fst kc' \<and> collapsed (snd kc) (snd kc')) (children t) (children t')"
    by simp
  then have len: "i < length (children t)" using i by (simp add: list_all2_lengthD)
  have "collapsed (snd (children t ! i)) (snd (children t' ! i))"
    using list_all2_nthD [OF r len] by simp
  from Cons.IH [OF this sub] len show ?case by simp
qed

lemma collapsed_node_count: "collapsed t t' \<Longrightarrow> node_count t' \<le> node_count t"
proof (induction t arbitrary: t')
  case (Node ns c a kids)
  from Node.prems obtain kids' where t': "t' = Node ns c a kids'"
    by (auto elim: collapsed.cases)
  show ?case
  proof (cases "kids' = []")
    case True
    then show ?thesis using t' by simp
  next
    case False
    with collapsed_children [OF Node.prems] t'
    have r: "list_all2 (\<lambda>kc kc'. fst kc = fst kc' \<and> collapsed (snd kc) (snd kc')) kids kids'"
      by simp
    then have len: "length kids' = length kids" by (simp add: list_all2_lengthD)
    have "sum_list (map (\<lambda>kv. node_count (snd kv)) kids') \<le> sum_list (map (\<lambda>kv. node_count (snd kv)) kids)"
    proof (rule sum_list_mono2)
      show "length (map (\<lambda>kv. node_count (snd kv)) kids') = length (map (\<lambda>kv. node_count (snd kv)) kids)"
        using len by simp
    next
      fix i
      show "i < length (map (\<lambda>kv. node_count (snd kv)) kids')
              \<longrightarrow> map (\<lambda>kv. node_count (snd kv)) kids' ! i \<le> map (\<lambda>kv. node_count (snd kv)) kids ! i"
      proof
        assume "i < length (map (\<lambda>kv. node_count (snd kv)) kids')"
        then have i: "i < length kids" using len by simp
        then have mem: "kids ! i \<in> set kids" by simp
        have col: "collapsed (snd (kids ! i)) (snd (kids' ! i))"
          using list_all2_nthD [OF r i] by simp
        have "node_count (snd (kids' ! i)) \<le> node_count (snd (kids ! i))"
          using Node.IH [OF mem snd_in_snds col] .
        then show "map (\<lambda>kv. node_count (snd kv)) kids' ! i \<le> map (\<lambda>kv. node_count (snd kv)) kids ! i"
          using i len by simp
      qed
    qed
    moreover have "kids \<noteq> []" using False len by auto
    ultimately show ?thesis using t' False by simp
  qed
qed

lemma prune_node_count: "prune t = Inr t' \<Longrightarrow> node_count t' \<le> node_count t"
  by (simp add: prune_def prune_loop_collapsed collapsed_node_count)

text \<open>
  Claim C7 (pruning mutates only children dictionaries: every node kept in the
  tree has the class counts, hence their sum, the majority class, the split
  attribute and the parent it had; the only change is that some nodes' children
  become the empty dictionary).  The pruned tree is the original with some
  children dictionaries emptied, and a node found at a position of the pruned tree
  is found at the same position of the original, with the same fields.
\<close>

theorem prune_changes_children_only:
  assumes "prune t = Inr t'"
  shows "collapsed t t'
    \<and> (\<forall>p n'. node_at t' p = Some n' \<longrightarrow>
          (\<exists>n. node_at t p = Some n
               \<and> nsamples n' = nsamples n \<and> sum_list (nsamples n') = sum_list (nsamples n)
               \<and> cls n' = cls n \<and> attr_idx n' = attr_idx n
               \<and> (children n' = [] \<or> map fst (children n') = map fst (children n))))"
proof -
  have c: "collapsed t t'"
    using assms by (simp add: prune_def prune_loop_collapsed)
  have "\<exists>n. node_at t p = Some n
               \<and> nsamples n' = nsamples n \<and> sum_list (nsamples n') = sum_list (nsamples n)
               \<and> cls n' = cls n \<and> attr_idx n' = attr_idx n
               \<and> (children n' = [] \<or> map fst (children n') = map fst (children n))"
    if "node_at t' p = Some n'" for p n'
  proof -
    from collapsed_node_at [OF c that] obtain n where n: "node_at t p = Some n" "collapsed n n'"
      by blast
    have "children n' = [] \<or> map fst (children n') = map fst (children n)"
    proof (cases "children n' = []")
      case True
      then show ?thesis by simp
    next
      case False
      with collapsed_children [OF n(2)]
      have r: "list_all2 (\<lambda>kc kc'. fst kc = fst kc' \<and> collapsed (snd kc) (snd kc')) (children n) (children n')"
        by simp
      have "map fst (children n') = map fst (children n)"
      proof (rule nth_equalityI)
        show "length (map fst (children n')) = length (map fst (children n))"
          using r by (simp add: list_all2_lengthD)
      next
        fix i assume "i < length (map fst (children n'))"
        then have i: "i < length (children n)" using r by (simp add: list_all2_lengthD)
        then have "i < length (children n')" using r by (simp add: list_all2_lengthD)
        with i list_all2_nthD [OF r i] show "map fst (children n') ! i = map fst (children n) ! i"
          by simp
      qed
      then show ?thesis by simp
    qed
    with n collapsed_fields [OF n(2)] show ?thesis by simp
  qed
  with c show ?thesis by blast
qed

theorem prune_changes_children_only_witness:
  "collapsed split_tree split_tree_pruned
    \<and> node_at split_tree [] = Some split_tree
    \<and> nsamples split_tree_pruned = nsamples split_tree
    \<and> cls split_tree_pruned = cls split_tree
    \<and> attr_idx split_tree_pruned = attr_idx split_tree"
proof -
  have "node_at split_tree_pruned [] = Some split_tree_pruned" by simp
  with prune_changes_children_only [OF prune_split_tree] show ?thesis
    by (simp add: split_tree_def split_tree_pruned_def)
qed

section \<open>The breadth-first traversal\<close>

text \<open>
  Breadth-first order, level by level: level 0 is the root, the next level lists
  the children of the nodes of a level, in their order.
\<close>

definition next_level :: "(pos \<times> node) list \<Rightarrow> (pos \<times> node) list" where
  "next_level q = concat (map (\<lambda>pn. kids_at (fst pn) (snd pn)) q)"

primrec level :: "node \<Rightarrow> nat \<Rightarrow> (pos \<times> node) list" where
  "level t 0 = [([], t)]"
| "level t (Suc d) = next_level (level t d)"

lemma next_level_simps [simp]:
  "next_level [] = []"
  "next_level (pn # q) = kids_at (fst pn) (snd pn) @ next_level q"
  "next_level (q @ r) = next_level q @ next_level r"
  by (simp_all add: next_level_def)

lemma bfs_append: "bfs (q @ r) = q @ bfs (r @ next_level q)"
proof (induction q arbitrary: r)
  case Nil
  then show ?case by simp
next
  case (Cons pn q)
  obtain p n where pn: "pn = (p, n)" by (cases pn)
  have "bfs ((pn # q) @ r) = (p, n) # bfs (q @ (r @ kids_at p n))"
    by (simp add: pn)
  also have "\<dots> = (p, n) # q @ bfs ((r @ kids_at p n) @ next_level q)"
    by (simp only: Cons.IH)
  finally show ?case by (simp add: pn)
qed

lemma bfs_level_step: "bfs q = q @ bfs (next_level q)"
  using bfs_append [of q "[]"] by simp

lemma bfs_levels:
  "bfs (level t 0) = concat (map (level t) [0..<d]) @ bfs (level t d)"
proof (induction d)
  case 0
  then show ?case by simp
next
  case (Suc d)
  have "bfs (level t d) = level t d @ bfs (level t (Suc d))"
    using bfs_level_step [of "level t d"] by simp
  with Suc show ?case by simp
qed

lemma height_kids:
  "pn \<in> set (kids_at p n) \<Longrightarrow> height (snd pn) < height n"
proof (cases n)
  case (Node ns c a kids)
  assume "pn \<in> set (kids_at p n)"
  then obtain i where i: "i < length kids" "snd pn = snd (kids ! i)"
    using Node by (auto simp: kids_at_def)
  then have "height (snd (kids ! i)) \<in> set (map (\<lambda>kv. height (snd kv)) kids)"
    by (auto intro!: image_eqI [where x = "kids ! i"])
  then have le: "height (snd (kids ! i)) \<le> Max (set (map (\<lambda>kv. height (snd kv)) kids))"
    by (intro Max_ge) simp_all
  have "kids \<noteq> []" using i by auto
  then have hn: "height n = Suc (Max (set (map (\<lambda>kv. height (snd kv)) kids)))"
    using Node by simp
  show ?thesis
    unfolding hn i(2) using le by linarith
qed

lemma next_level_height:
  assumes "\<forall>pn\<in>set q. height (snd pn) < Suc h"
  shows "\<forall>pn\<in>set (next_level q). height (snd pn) < h"
proof
  fix pn assume "pn \<in> set (next_level q)"
  then obtain qn where "qn \<in> set q" "pn \<in> set (kids_at (fst qn) (snd qn))"
    by (auto simp: next_level_def)
  with assms height_kids [of pn "fst qn" "snd qn"] show "height (snd pn) < h"
    by fastforce
qed

lemma level_height: "\<forall>pn\<in>set (level t d). height (snd pn) + d < Suc (height t)"
proof (induction d)
  case 0
  then show ?case by simp
next
  case (Suc d)
  then have "\<forall>pn\<in>set (level t d). height (snd pn) < Suc (height t - d)"
    by fastforce
  from next_level_height [OF this] Suc show ?case
    by (cases "level t d = []") fastforce+
qed

lemma level_beyond_height: "level t (Suc (height t)) = []"
proof (rule ccontr)
  assume "level t (Suc (height t)) \<noteq> []"
  then obtain pn where "pn \<in> set (level t (Suc (height t)))"
    by (meson last_in_set)
  with level_height [of t "Suc (height t)"]
  have "height (snd pn) + Suc (height t) < Suc (height t)"
    by blast
  then show False by simp
qed

lemma nodes_levels: "nodes t = concat (map (level t) [0..<Suc (height t)])"
  using bfs_levels [of t "Suc (height t)"]
  by (simp add: nodes_def level_beyond_height del: level.simps(2) upt_Suc)

lemma node_count_kids_at:
  "Suc (sum_list (map (\<lambda>pn. node_count (snd pn)) (kids_at p n))) = node_count n"
proof -
  obtain ns c a kids where n: "n = Node ns c a kids" by (cases n)
  have "sum_list (map (\<lambda>pn. node_count (snd pn)) (kids_at p n))
          = sum_list (map (\<lambda>kv. node_count (snd kv)) kids)"
    by (simp add: kids_at_def n comp_def map_index_nth [of "\<lambda>kv. node_count (snd kv)" kids])
  then show ?thesis
    by (cases "kids = []") (simp_all add: n)
qed

lemma length_bfs: "length (bfs q) = sum_list (map (\<lambda>pn. node_count (snd pn)) q)"
proof (induction q rule: bfs.induct)
  case 1
  then show ?case by simp
next
  case (2 p n q)
  with node_count_kids_at [of p n] show ?case by simp
qed

lemma node_at_snoc:
  "node_at t (p @ [i]) =
     (case node_at t p of
        None \<Rightarrow> None
      | Some n \<Rightarrow> if i < length (children n) then Some (snd (children n ! i)) else None)"
  by (induction p arbitrary: t) simp_all

lemma in_kids_at:
  "pn \<in> set (kids_at p n) \<longleftrightarrow> (\<exists>i < length (children n). pn = (p @ [i], snd (children n ! i)))"
  by (auto simp: kids_at_def)

lemma in_next_level:
  "pn \<in> set (next_level q) \<longleftrightarrow>
     (\<exists>p n i. (p, n) \<in> set q \<and> i < length (children n) \<and> pn = (p @ [i], snd (children n ! i)))"
  by (force simp: next_level_def in_kids_at)

lemma level_sound:
  "(p, n) \<in> set (level t d) \<Longrightarrow> node_at t p = Some n \<and> length p = d"
proof (induction d arbitrary: p n)
  case 0
  then show ?case by simp
next
  case (Suc d)
  then obtain p' n' i where "(p', n') \<in> set (level t d)" "i < length (children n')"
    "p = p' @ [i]" "n = snd (children n' ! i)"
    by (auto simp: in_next_level)
  with Suc.IH [of p' n'] show ?case
    by (simp add: node_at_snoc)
qed

lemma level_complete:
  "node_at t p = Some n \<Longrightarrow> (p, n) \<in> set (level t (length p))"
proof (induction p arbitrary: n rule: rev_induct)
  case Nil
  then show ?case by simp
next
  case (snoc i p)
  then obtain n' where n': "node_at t p = Some n'" "i < length (children n')"
    "n = snd (children n' ! i)"
    by (auto simp: node_at_snoc split: option.splits if_splits)
  from snoc.IH [OF n'(1)] n'(2,3) show ?case
    by (auto simp: in_next_level)
qed

lemma distinct_kids_at: "distinct (map fst (kids_at p n))"
  by (simp add: kids_at_def comp_def distinct_map inj_on_def)

lemma distinct_next_level:
  "distinct (map fst q) \<Longrightarrow> distinct (map fst (next_level q))"
proof (induction q)
  case Nil
  then show ?case by simp
next
  case (Cons pn q)
  have "fst ` set (kids_at (fst pn) (snd pn)) \<inter> fst ` set (next_level q) = {}"
  proof (rule ccontr)
    assume "fst ` set (kids_at (fst pn) (snd pn)) \<inter> fst ` set (next_level q) \<noteq> {}"
    then obtain a b where a: "a \<in> set (kids_at (fst pn) (snd pn))"
      and b: "b \<in> set (next_level q)" and ab: "fst a = fst b"
      by auto
    from a obtain i where ai: "fst a = fst pn @ [i]"
      by (auto simp: in_kids_at)
    from b obtain p n j where q: "(p, n) \<in> set q" and bj: "fst b = p @ [j]"
      by (auto simp: in_next_level)
    from ai bj ab have "fst pn = p" by simp
    with q have "fst pn \<in> fst ` set q"
      using image_eqI [of "fst pn" fst "(p, n)" "set q"] by simp
    with Cons.prems show False by simp
  qed
  with Cons show ?case
    by (simp add: distinct_kids_at)
qed

lemma distinct_level: "distinct (map fst (level t d))"
  by (induction d) (simp_all add: distinct_next_level)

lemma distinct_levels: "distinct (map fst (concat (map (level t) [0..<d])))"
proof (induction d)
  case 0
  then show ?case by simp
next
  case (Suc d)
  have "fst ` set (concat (map (level t) [0..<d])) \<inter> fst ` set (level t d) = {}"
  proof (rule ccontr)
    assume "fst ` set (concat (map (level t) [0..<d])) \<inter> fst ` set (level t d) \<noteq> {}"
    then obtain p n n' e where "e < d" "(p, n) \<in> set (level t e)" "(p, n') \<in> set (level t d)"
      by fastforce
    then show False
      using level_sound [of p n t e] level_sound [of p n' t d] by simp
  qed
  with Suc distinct_level [of t d] show ?case
    by (simp del: level.simps(2))
qed

lemma level_empty_beyond: "height t < d \<Longrightarrow> level t d = []"
proof (rule ccontr)
  assume "height t < d" and "level t d \<noteq> []"
  then obtain pn where "pn \<in> set (level t d)"
    by (meson last_in_set)
  with level_height [of t d] have "height (snd pn) + d < Suc (height t)"
    by blast
  with \<open>height t < d\<close> show False by simp
qed

lemma set_nodes: "set (nodes t) = {(p, n). node_at t p = Some n}"
proof (rule set_eqI)
  fix pn :: "pos \<times> node"
  obtain p n where pn: "pn = (p, n)" by (cases pn)
  show "pn \<in> set (nodes t) \<longleftrightarrow> pn \<in> {(p, n). node_at t p = Some n}"
  proof
    assume "pn \<in> set (nodes t)"
    then obtain d where "(p, n) \<in> set (level t d)"
      unfolding nodes_levels pn by auto
    then show "pn \<in> {(p, n). node_at t p = Some n}"
      using level_sound [of p n t d] pn by simp
  next
    assume "pn \<in> {(p, n). node_at t p = Some n}"
    then have at: "node_at t p = Some n" using pn by simp
    then have mem: "(p, n) \<in> set (level t (length p))"
      by (rule level_complete)
    then have "\<not> height t < length p"
      using level_empty_beyond [of t "length p"] by auto
    then have "length p \<in> set [0..<Suc (height t)]"
      by (simp add: not_less less_Suc_eq_le del: upt_Suc)
    with mem show "pn \<in> set (nodes t)"
      unfolding nodes_levels pn by (auto simp del: upt_Suc)
  qed
qed

text \<open>
  Claim C6 (for every tree, the single leaf included, \<^verbatim>\<open>nodes()\<close> yields every node
  exactly once in breadth-first order from the root, and \<^verbatim>\<open>node_count\<close> is the number
  of nodes yielded).  The sequence yielded is the levels \<open>0, ..., height\<close> one after
  the other; its positions are pairwise distinct; its elements are exactly the
  nodes of the tree, each with its position; its length is \<^verbatim>\<open>node_count\<close>.
\<close>

theorem nodes_breadth_first_once:
  "nodes t = concat (map (level t) [0..<Suc (height t)])
   \<and> distinct (map fst (nodes t))
   \<and> set (nodes t) = {(p, n). node_at t p = Some n}
   \<and> length (nodes t) = node_count t
   \<and> nodes (Node ns c a []) = [([], Node ns c a [])]"
proof -
  have "distinct (map fst (nodes t))"
    unfolding nodes_levels by (rule distinct_levels)
  moreover have "length (nodes t) = node_count t"
    using node_count_kids_at [of "[]" t] by (simp add: nodes_def length_bfs)
  moreover have "nodes (Node ns c a []) = [([], Node ns c a [])]"
    by (simp add: nodes_def kids_at_def)
  ultimately show ?thesis
    using nodes_levels [of t] set_nodes [of t] by simp
qed

section \<open>The attribute chosen\<close>





section \<open>The boundary scenario\<close>

text \<open>
  The scenario of a node with class counts \<open>{A: 8, B: 2}\<close> whose two children have
  the counts \<open>{A: 5, B: 0}\<close> and \<open>{A: 3, B: 2}\<close>, with \<open>A = 0\<close> and \<open>B = 1\<close>: ten
  training rows and one attribute.  The builder splits on the attribute; the first
  child is pure, and \<^verbatim>\<open>np.bincount\<close> of its five labels 0 is the one-slot histogram
  \<open>[5]\<close>.  The second child cannot be split further (gain 0) and is a leaf.
\<close>

definition scenario_data :: "int list list" where
  "scenario_data =
     [[0, 0], [0, 0], [0, 0], [0, 0], [0, 0], [0, 1], [0, 1], [0, 1], [1, 1], [1, 1]]"

definition scenario_tree :: node where
  "scenario_tree = Node [8, 2] 0 (Some 1) [(0, Node [5] 0 None []), (1, Node [3, 2] 0 None [])]"

definition scenario_tree_pruned :: node where
  "scenario_tree_pruned = Node [8, 2] 0 (Some 1) []"

lemma log2_5_lower: "9 / 4 < log 2 5"
proof -
  have a: "log 2 (5 ^ 4) = 4 * log 2 5"
    using log_nat_power [of 5 2 4] by simp
  have b: "log 2 (2 ^ 9) = 9"
    using log_nat_power [of 2 2 9] by simp
  have "log 2 (2 ^ 9) < log 2 (5 ^ 4)"
    by (subst log_less_cancel_iff) simp_all
  then have "9 < 4 * log 2 5"
    unfolding a b .
  then show ?thesis by simp
qed

lemma log2_3_lower: "3 / 2 < log 2 3"
proof -
  have a: "log 2 (3 ^ 2) = 2 * log 2 3"
    using log_nat_power [of 3 2 2] by simp
  have b: "log 2 (2 ^ 3) = 3"
    using log_nat_power [of 2 2 3] by simp
  have "log 2 (2 ^ 3) < log 2 (3 ^ 2)"
    by (subst log_less_cancel_iff) simp_all
  then have "3 < 2 * log 2 3"
    unfolding a b .
  then show ?thesis by simp
qed

lemma log2_fifths:
  "log 2 (4 / 5) = 2 - log 2 5" "log 2 (1 / 5) = - log 2 5"
  "log 2 (3 / 5) = log 2 3 - log 2 5" "log 2 (2 / 5) = 1 - log 2 5"
proof -
  have "log 2 4 = 2"
    using log_nat_power [of 2 2 2] by simp
  then show "log 2 (4 / 5) = 2 - log 2 5"
    by (simp add: log_divide)
  show "log 2 (1 / 5) = - log 2 5" "log 2 (3 / 5) = log 2 3 - log 2 5"
    "log 2 (2 / 5) = 1 - log 2 5"
    by (simp_all add: log_divide)
qed

lemma build_scenario_data: "build_tree (IntArray 2 scenario_data) = Inr scenario_tree"
  unfolding scenario_data_def scenario_tree_def using log2_5_lower log2_3_lower
  by (simp add: build_tree.simps best_attribute_def gain_of_def entropy_Y_Xa_def entropy_def
      partition_col_def upt_rec new_node_def argmax_def log2_fifths) argo

lemma nodes_scenario_tree:
  "nodes scenario_tree = [([], scenario_tree), ([0], Node [5] 0 None []), ([1], Node [3, 2] 0 None [])]"
  by (simp add: nodes_def scenario_tree_def kids_at_def upt_rec)

lemma rates_scenario_tree:
  "node_err_rate scenario_tree = Inr (1 / 5)" "children_err_rate scenario_tree = Inr (7 / 10)"
  by (simp_all add: scenario_tree_def node_err_rate_def children_err_rate_def py_min_def)

lemma prune_scenario_tree: "prune scenario_tree = Inr scenario_tree_pruned"
proof -
  have "prune_step [] scenario_tree = Inr scenario_tree_pruned"
    by (simp add: prune_step_def rates_scenario_tree)
      (simp add: scenario_tree_def scenario_tree_pruned_def)
  moreover have "prune_step [0] scenario_tree = Inr scenario_tree"
    "prune_step [1] scenario_tree = Inr scenario_tree"
    by (simp_all add: prune_step_def scenario_tree_def)
  ultimately show ?thesis
    by (simp add: prune_def nodes_scenario_tree)
qed

text \<open>
  The same scenario with \<open>A = 1\<close> and \<open>B = 0\<close>: the first child's histogram is
  \<open>[0, 5]\<close>, both rates computed are \<open>1/5\<close>, and the node keeps its children.
\<close>

definition scenario_data_swapped :: "int list list" where
  "scenario_data_swapped =
     [[1, 0], [1, 0], [1, 0], [1, 0], [1, 0], [1, 1], [1, 1], [1, 1], [0, 1], [0, 1]]"

definition scenario_tree_swapped :: node where
  "scenario_tree_swapped =
     Node [2, 8] 1 (Some 1) [(0, Node [0, 5] 1 None []), (1, Node [2, 3] 1 None [])]"

lemma build_scenario_data_swapped:
  "build_tree (IntArray 2 scenario_data_swapped) = Inr scenario_tree_swapped"
  unfolding scenario_data_swapped_def scenario_tree_swapped_def using log2_5_lower log2_3_lower
  by (simp add: build_tree.simps best_attribute_def gain_of_def entropy_Y_Xa_def entropy_def
      partition_col_def upt_rec new_node_def argmax_def log2_fifths) argo

lemma prune_scenario_tree_swapped:
  "node_err_rate scenario_tree_swapped = Inr (1 / 5)"
  "children_err_rate scenario_tree_swapped = Inr (1 / 5)"
  "prune scenario_tree_swapped = Inr scenario_tree_swapped"
  by (simp_all add: scenario_tree_swapped_def prune_def nodes_def kids_at_def upt_rec
      prune_step_def node_err_rate_def children_err_rate_def py_min_def)

text \<open>
  Claim C3 (in the scenario of a node with counts \<open>{A: 8, B: 2}\<close> and children
  \<open>{A: 5, B: 0}\<close>, \<open>{A: 3, B: 2}\<close> both rates are \<open>0.2\<close> and, the comparison being
  strict, the node is not pruned).  The rates as the specification words them are
  \<open>1/5\<close> and \<open>1/5\<close> on the tree built from \<open>scenario_data\<close>.  The code computes
  \<open>1/5\<close> for the node and \<open>5/10 + 2/10 = 7/10\<close> for its children, since \<^verbatim>\<open>min\<close> of
  the histogram \<open>[5]\<close> is 5, and collapses the node.
\<close>

theorem prune_boundary_scenario_collapses:
  "build_tree (IntArray 2 scenario_data) = Inr scenario_tree
   \<and> spec_node_error_rate scenario_tree = 1 / 5
   \<and> spec_children_error_rate scenario_tree = 1 / 5
   \<and> node_err_rate scenario_tree = Inr (1 / 5)
   \<and> children_err_rate scenario_tree = Inr (7 / 10)
   \<and> prune scenario_tree = Inr scenario_tree_pruned
   \<and> children scenario_tree_pruned = []"
proof -
  have "spec_node_error_rate scenario_tree = 1 / 5" "spec_children_error_rate scenario_tree = 1 / 5"
    by (simp_all add: scenario_tree_def spec_node_error_rate_def spec_children_error_rate_def)
  moreover have "children scenario_tree_pruned = []"
    by (simp add: scenario_tree_pruned_def)
  ultimately show ?thesis
    using build_scenario_data rates_scenario_tree prune_scenario_tree by simp
qed

end
